theory Spec2Isabelle
  imports Complex_Main
begin

section \<open>Numbers, strings and the truthiness the engine relies on\<close>

text \<open>
  The engine computes with the weights of the graph, their sums, the literal \<open>0\<close> and
  the literal \<open>Infinity\<close>. The editor produces integer weights (a slider from 1 to 20,
  the demo graph), so a number is an integer or \<open>Infinity\<close>. \<open>NaN\<close>, \<open>-Infinity\<close>
  and rounding are outside this model.
\<close>

datatype number = Fin int | Infinity

fun num_add :: "number \<Rightarrow> number \<Rightarrow> number" where
  "num_add (Fin a) (Fin b) = Fin (a + b)"
| "num_add _ _ = Infinity"

fun num_less :: "number \<Rightarrow> number \<Rightarrow> bool" where
  "num_less (Fin a) (Fin b) = (a < b)"
| "num_less (Fin a) Infinity = True"
| "num_less Infinity _ = False"

text \<open>\<open>v || d\<close> on \<open>number | undefined\<close>: \<open>undefined\<close> and \<open>0\<close> are falsy.\<close>

fun num_or :: "number option \<Rightarrow> number \<Rightarrow> number" where
  "num_or None d = d"
| "num_or (Some (Fin n)) d = (if n = 0 then d else Fin n)"
| "num_or (Some Infinity) d = Infinity"

text \<open>\<open>v || null\<close> on \<open>number | undefined\<close>.\<close>

fun num_or_null :: "number option \<Rightarrow> number option" where
  "num_or_null None = None"
| "num_or_null (Some (Fin n)) = (if n = 0 then None else Some (Fin n))"
| "num_or_null (Some Infinity) = Some Infinity"

text \<open>
  \<open>v || null\<close> on \<open>string | null | undefined\<close>: the outer \<open>None\<close> is \<open>undefined\<close>,
  \<open>Some None\<close> is \<open>null\<close>, and the empty string is falsy.
\<close>

fun str_or_null :: "string option option \<Rightarrow> string option" where
  "str_or_null None = None"
| "str_or_null (Some None) = None"
| "str_or_null (Some (Some s)) = (if s = [] then None else Some s)"

text \<open>\<open>v || []\<close> on \<open>array | undefined\<close>: every array is truthy.\<close>

fun or_empty :: "'a list option \<Rightarrow> 'a list" where
  "or_empty None = []"
| "or_empty (Some a) = a"

section \<open>Map and Set of the host language, in insertion order\<close>

text \<open>
  A \<open>Map\<close> iterates in insertion order; \<open>set\<close> on a present key keeps its place and
  on a new key appends. A \<open>Set\<close> likewise. Both are lists here.
\<close>

definition map_get :: "('k \<times> 'v) list \<Rightarrow> 'k \<Rightarrow> 'v option" where
  "map_get m k = map_of m k"

definition map_has :: "('k \<times> 'v) list \<Rightarrow> 'k \<Rightarrow> bool" where
  "map_has m k = (map_of m k \<noteq> None)"

fun map_set :: "'k \<Rightarrow> 'v \<Rightarrow> ('k \<times> 'v) list \<Rightarrow> ('k \<times> 'v) list" where
  "map_set k v [] = [(k, v)]"
| "map_set k v (p # m) = (if fst p = k then (k, v) # m else p # map_set k v m)"

definition set_has :: "'a list \<Rightarrow> 'a \<Rightarrow> bool" where
  "set_has s a = (a \<in> set s)"

definition set_add :: "'a \<Rightarrow> 'a list \<Rightarrow> 'a list" where
  "set_add a s = (if a \<in> set s then s else s @ [a])"

definition set_delete :: "'a \<Rightarrow> 'a list \<Rightarrow> 'a list" where
  "set_delete a s = removeAll a s"

section \<open>Graph data structures (graphUtils.ts)\<close>

datatype NodeStatus = NDefault | NVisited | NCurrent | NStart | NEnd | NPath

datatype EdgeStatus = EDefault | EPath

text \<open>The canvas position is carried along and never inspected by the engine.\<close>

record Node =
  node_id :: string
  node_x :: real
  node_y :: real
  node_label :: "string option"
  node_status :: "NodeStatus option"

record Edge =
  edge_id :: string
  source :: string
  target :: string
  weight :: number
  edge_status :: "EdgeStatus option"

record Graph =
  nodes :: "Node list"
  edges :: "Edge list"

type_synonym adjacency = "(string \<times> (string \<times> number) list) list"

text \<open>
  One iteration of \<open>graph.edges.forEach\<close> in \<open>createAdjacencyList\<close>. The two arrays
  fetched from the map are the same object exactly when the edge is a loop on a key that is
  present; then both pushes land in it. Otherwise they are distinct arrays, and for a loop
  on an absent key the second \<open>set\<close> overwrites the first.
\<close>

definition addEdge :: "Edge \<Rightarrow> adjacency \<Rightarrow> adjacency" where
  "addEdge e adj =
     (let sourceConnections = or_empty (map_get adj (source e));
          targetConnections = or_empty (map_get adj (target e))
      in if source e = target e \<and> map_has adj (source e)
         then map_set (source e)
                (sourceConnections @ [(target e, weight e), (source e, weight e)]) adj
         else map_set (target e) (targetConnections @ [(source e, weight e)])
                (map_set (source e) (sourceConnections @ [(target e, weight e)]) adj))"

definition createAdjacencyList :: "Graph \<Rightarrow> adjacency" where
  "createAdjacencyList g =
     fold addEdge (edges g) (fold (\<lambda>node adj. map_set (node_id node) [] adj) (nodes g) [])"

text \<open>The object literals of \<open>generateDemoGraph\<close>: a node and an edge with status
  \<open>default\<close>, the node labelled by its id.\<close>

definition mkNode :: "string \<Rightarrow> real \<Rightarrow> real \<Rightarrow> Node" where
  "mkNode i px py =
     \<lparr>node_id = i, node_x = px, node_y = py, node_label = Some i, node_status = Some NDefault\<rparr>"

definition mkEdge :: "string \<Rightarrow> string \<Rightarrow> string \<Rightarrow> int \<Rightarrow> Edge" where
  "mkEdge i s t w =
     \<lparr>edge_id = i, source = s, target = t, weight = Fin w, edge_status = Some EDefault\<rparr>"

definition generateDemoGraph :: Graph where
  "generateDemoGraph =
     \<lparr>nodes = [mkNode ''A'' 100 150, mkNode ''B'' 250 80, mkNode ''C'' 400 150,
               mkNode ''D'' 250 250, mkNode ''E'' 550 220],
      edges = [mkEdge ''A-B'' ''A'' ''B'' 4, mkEdge ''A-D'' ''A'' ''D'' 3,
               mkEdge ''B-C'' ''B'' ''C'' 5, mkEdge ''B-D'' ''B'' ''D'' 2,
               mkEdge ''C-D'' ''C'' ''D'' 1, mkEdge ''C-E'' ''C'' ''E'' 6,
               mkEdge ''D-E'' ''D'' ''E'' 8]\<rparr>"

section \<open>The step-wise engine (dijkstra.ts)\<close>

record DijkstraStep =
  distances :: "(string \<times> number) list"
  previous :: "(string \<times> string option) list"
  currentNode :: "string option"
  visitedNodes :: "string list"
  unvisitedNodes :: "string list"
  graph :: Graph
  isDone :: bool
  shortestPath :: "string list option"

record DijkstraResult =
  success :: bool
  steps :: "DijkstraStep list"
  result_shortestPath :: "string list option"
  shortestDistance :: "number option"

definition initializeDijkstra :: "Graph \<Rightarrow> string \<Rightarrow> DijkstraStep" where
  "initializeDijkstra g startNodeId =
     \<lparr>distances =
        fold (\<lambda>node. map_set (node_id node)
                       (if node_id node = startNodeId then Fin 0 else Infinity)) (nodes g) [],
      previous = fold (\<lambda>node. map_set (node_id node) None) (nodes g) [],
      currentNode = Some startNodeId,
      visitedNodes = [],
      unvisitedNodes = fold (\<lambda>node. set_add (node_id node)) (nodes g) [],
      graph =
        \<lparr>nodes = map (\<lambda>node. node\<lparr>node_status :=
                     Some (if node_id node = startNodeId then NStart
                           else if node_status node = Some NEnd then NEnd else NDefault)\<rparr>)
                   (nodes g),
         edges = edges g\<rparr>,
      isDone = False,
      shortestPath = None\<rparr>"

text \<open>The callback of \<open>neighbors.forEach\<close>, on the pair of maps it mutates.\<close>

definition relax ::
  "string list \<Rightarrow> string \<Rightarrow> number \<Rightarrow> string \<times> number \<Rightarrow>
   (string \<times> number) list \<times> (string \<times> string option) list \<Rightarrow>
   (string \<times> number) list \<times> (string \<times> string option) list" where
  "relax visited currentNodeId currentDistance nb dp =
     (if set_has visited (fst nb) then dp
      else if num_less (num_add currentDistance (snd nb))
                       (num_or (map_get (fst dp) (fst nb)) Infinity)
           then (map_set (fst nb) (num_add currentDistance (snd nb)) (fst dp),
                 map_set (fst nb) (Some currentNodeId) (snd dp))
           else dp)"

text \<open>The callback of \<open>unvisitedNodes.forEach\<close>, on \<open>(smallestDistance, nextNode)\<close>.\<close>

definition pickNext ::
  "(string \<times> number) list \<Rightarrow> string \<Rightarrow> number \<times> string option \<Rightarrow> number \<times> string option" where
  "pickNext ds nodeId acc =
     (if num_less (num_or (map_get ds nodeId) Infinity) (fst acc)
      then (num_or (map_get ds nodeId) Infinity, Some nodeId) else acc)"

definition stepStatus :: "string \<Rightarrow> string list \<Rightarrow> Node \<Rightarrow> Node" where
  "stepStatus currentNodeId visited node =
     node\<lparr>node_status :=
       (if node_id node = currentNodeId
        then Some (if node_status node = Some NStart then NStart else NCurrent)
        else if set_has visited (node_id node)
             then Some (if node_status node = Some NEnd then NEnd else NVisited)
             else node_status node)\<rparr>"

definition dijkstraNextStep :: "DijkstraStep \<Rightarrow> DijkstraStep" where
  "dijkstraNextStep prevStep =
     (case currentNode prevStep of
        None \<Rightarrow> prevStep
      | Some currentNodeId \<Rightarrow>
          if isDone prevStep \<or> currentNodeId = [] then prevStep
          else
            let adjacencyList = createAdjacencyList (graph prevStep);
                visited = set_add currentNodeId (visitedNodes prevStep);
                unvisited = set_delete currentNodeId (unvisitedNodes prevStep);
                neighbors = or_empty (map_get adjacencyList currentNodeId);
                currentDistance = num_or (map_get (distances prevStep) currentNodeId) (Fin 0);
                dp = fold (relax visited currentNodeId currentDistance) neighbors
                       (distances prevStep, previous prevStep);
                sel = fold (pickNext (fst dp)) unvisited (Infinity, None)
            in \<lparr>distances = fst dp,
                previous = snd dp,
                currentNode = (if snd sel = None \<or> fst sel = Infinity then None else snd sel),
                visitedNodes = visited,
                unvisitedNodes = unvisited,
                graph = \<lparr>nodes = map (stepStatus currentNodeId visited)
                                     (nodes (graph prevStep)),
                         edges = edges (graph prevStep)\<rparr>,
                isDone = (snd sel = None \<or> fst sel = Infinity),
                shortestPath = shortestPath prevStep\<rparr>)"

text \<open>
  The \<open>while (current)\<close> loop of \<open>constructPath\<close>. It follows the predecessor map and
  need not end on a map with a cycle, so not returning is the value \<open>None\<close>.
\<close>

partial_function (option) constructPathLoop ::
  "(string \<times> string option) list \<Rightarrow> string option \<Rightarrow> string list \<Rightarrow> string list option" where
  "constructPathLoop prev current path =
     (case current of
        None \<Rightarrow> Some path
      | Some c \<Rightarrow>
          if c = [] then Some path
          else constructPathLoop prev (str_or_null (map_get prev c)) (c # path))"

text \<open>
  \<open>constructPath\<close>: the outer option is "returns", the inner one is \<open>null\<close>. The first
  key of the map is \<open>undefined\<close> on an empty map, which no string equals.
\<close>

definition constructPath ::
  "string \<Rightarrow> (string \<times> string option) list \<Rightarrow> string list option option" where
  "constructPath endNodeId prev =
     (if \<not> map_has prev endNodeId \<or>
         (map_get prev endNodeId = Some None \<and>
          (case prev of [] \<Rightarrow> True | p # _ \<Rightarrow> endNodeId \<noteq> fst p))
      then Some None
      else map_option Some (constructPathLoop prev (Some endNodeId) []))"

definition isPathEdge :: "string list \<Rightarrow> Edge \<Rightarrow> bool" where
  "isPathEdge path e =
     list_ex (\<lambda>(nodeId, nextNodeId).
                (source e = nodeId \<and> target e = nextNodeId) \<or>
                (source e = nextNodeId \<and> target e = nodeId))
             (zip path (tl path))"

definition visualizeShortestPath :: "Graph \<Rightarrow> string list \<Rightarrow> Graph" where
  "visualizeShortestPath g path =
     (if length path < 2 then g
      else \<lparr>nodes = map (\<lambda>node. node\<lparr>node_status :=
                          (if node_status node = Some NStart \<or> node_status node = Some NEnd
                           then node_status node
                           else if node_id node \<in> set path then Some NPath
                           else node_status node)\<rparr>) (nodes g),
            edges = map (\<lambda>e. e\<lparr>edge_status :=
                          (if isPathEdge path e then Some EPath else edge_status e)\<rparr>)
                        (edges g)\<rparr>)"

text \<open>
  The \<open>while (!currentStep.isDone)\<close> loop of \<open>runDijkstraAlgorithm\<close>, on the current
  step and the list of snapshots.
\<close>

partial_function (option) runLoop ::
  "DijkstraStep \<Rightarrow> DijkstraStep list \<Rightarrow> (DijkstraStep \<times> DijkstraStep list) option" where
  "runLoop currentStep acc =
     (if isDone currentStep then Some (currentStep, acc)
      else runLoop (dijkstraNextStep currentStep) (acc @ [dijkstraNextStep currentStep]))"

text \<open>
  The rest of \<open>runDijkstraAlgorithm\<close>, on the last step and the snapshots the loop
  leaves: the path is reconstructed, a non-empty path is written with its highlighted graph
  into the last snapshot (a copy, so the step itself is untouched), and the result is built.
  The last snapshot exists: the list starts with the initial step.
\<close>

definition finish ::
  "string \<Rightarrow> DijkstraStep \<times> DijkstraStep list \<Rightarrow> DijkstraResult option" where
  "finish endNodeId r =
     (case constructPath endNodeId (previous (fst r)) of
        None \<Rightarrow> None
      | Some sp \<Rightarrow>
          Some \<lparr>success = (sp \<noteq> None),
                steps = (case sp of
                           None \<Rightarrow> snd r
                         | Some p \<Rightarrow>
                             if 0 < length p
                             then butlast (snd r) @
                                  [(last (snd r))
                                     \<lparr>graph := visualizeShortestPath (graph (fst r)) p,
                                      shortestPath := Some p\<rparr>]
                             else snd r),
                result_shortestPath = sp,
                shortestDistance = num_or_null (map_get (distances (fst r)) endNodeId)\<rparr>)"

definition runDijkstraAlgorithm :: "Graph \<Rightarrow> string \<Rightarrow> string \<Rightarrow> DijkstraResult option" where
  "runDijkstraAlgorithm g startNodeId endNodeId =
     (case runLoop (initializeDijkstra g startNodeId) [initializeDijkstra g startNodeId] of
        None \<Rightarrow> None
      | Some r \<Rightarrow> finish endNodeId r)"

text \<open>The sequence of snapshots: \<open>init\<close> followed by \<open>k\<close> calls of \<open>advance\<close>.\<close>

definition stepsFrom :: "Graph \<Rightarrow> string \<Rightarrow> nat \<Rightarrow> DijkstraStep" where
  "stepsFrom g startNodeId k = (dijkstraNextStep ^^ k) (initializeDijkstra g startNodeId)"

definition nodeIds :: "Graph \<Rightarrow> string set" where
  "nodeIds g = node_id ` set (nodes g)"

section \<open>Notions used in the proofs\<close>

text \<open>The neighbours \<open>advance\<close> reads for the current node, and the two folds it runs.\<close>

definition neighborsOf :: "Graph \<Rightarrow> string \<Rightarrow> (string \<times> number) list" where
  "neighborsOf g c = or_empty (map_get (createAdjacencyList g) c)"

definition relaxed ::
  "DijkstraStep \<Rightarrow> string \<Rightarrow> (string \<times> number) list \<times> (string \<times> string option) list" where
  "relaxed s c =
     fold (relax (set_add c (visitedNodes s)) c (num_or (map_get (distances s) c) (Fin 0)))
       (neighborsOf (graph s) c) (distances s, previous s)"

definition selected :: "DijkstraStep \<Rightarrow> string \<Rightarrow> number \<times> string option" where
  "selected s c =
     fold (pickNext (fst (relaxed s c))) (set_delete c (unvisitedNodes s)) (Infinity, None)"

text \<open>An edge joins two nodes when they are its endpoints, in either order.\<close>

definition joins :: "string \<Rightarrow> string \<Rightarrow> Edge \<Rightarrow> bool" where
  "joins u v e = ((source e = u \<and> target e = v) \<or> (source e = v \<and> target e = u))"

definition positiveWeights :: "Graph \<Rightarrow> bool" where
  "positiveWeights g = (\<forall>e\<in>set (edges g). num_less (Fin 0) (weight e))"

text \<open>Invariants of the steps: the two sets partition the node ids and the current node is
  unvisited; the maps have the node ids as keys; the adjacency list holds edges of the graph;
  a predecessor was visited before its successor; only the start node has distance 0.\<close>

definition partitionInv :: "Graph \<Rightarrow> DijkstraStep \<Rightarrow> bool" where
  "partitionInv g s =
     (distinct (unvisitedNodes s) \<and>
      set (visitedNodes s) \<inter> set (unvisitedNodes s) = {} \<and>
      set (visitedNodes s) \<union> set (unvisitedNodes s) = nodeIds g \<and>
      (\<forall>c. currentNode s = Some c \<longrightarrow> c \<in> set (unvisitedNodes s)) \<and>
      (\<not> isDone s \<longrightarrow> currentNode s \<noteq> None))"

definition keysInv :: "Graph \<Rightarrow> DijkstraStep \<Rightarrow> bool" where
  "keysInv g s =
     ((\<forall>v. map_has (distances s) v = (v \<in> nodeIds g)) \<and>
      (\<forall>v. map_has (previous s) v = (v \<in> nodeIds g)) \<and>
      edges (graph s) = edges g)"

definition adjOK :: "Edge set \<Rightarrow> adjacency \<Rightarrow> bool" where
  "adjOK E adj =
     (\<forall>k v w. (v, w) \<in> set (or_empty (map_get adj k)) \<longrightarrow>
        (\<exists>e\<in>E. weight e = w \<and>
           ((source e = k \<and> target e = v) \<or> (target e = k \<and> source e = v))))"

definition visitRank :: "string list \<Rightarrow> string \<Rightarrow> nat" where
  "visitRank vs v = length (takeWhile (\<lambda>x. x \<noteq> v) vs)"

definition predInv :: "DijkstraStep \<Rightarrow> bool" where
  "predInv s =
     (\<forall>v u. map_get (previous s) v = Some (Some u) \<longrightarrow>
        visitRank (visitedNodes s) u < visitRank (visitedNodes s) v)"

definition zeroInv :: "DijkstraStep \<Rightarrow> bool" where
  "zeroInv s =
     ((\<forall>v x. map_get (distances s) v = Some x \<longrightarrow> \<not> num_less x (Fin 0)) \<and>
      (\<forall>v. map_get (distances s) v = Some (Fin 0) \<longrightarrow>
           v \<in> set (visitedNodes s) \<or> currentNode s = Some v))"

definition startInv :: "string \<Rightarrow> DijkstraStep \<Rightarrow> bool" where
  "startInv st s =
     (map_get (distances s) st = Some (Fin 0) \<and> map_get (previous s) st = Some None \<and>
      (st \<in> set (visitedNodes s) \<or> currentNode s = Some st))"

section \<open>Example graphs\<close>

text \<open>
  Two nodes and no edge, a graph whose statuses are left over from an earlier run, a graph
  with an edge to a node that does not exist, a graph with a node whose id is the empty
  string, and a graph with an edge of weight 0.
\<close>

definition isolatedPair :: Graph where
  "isolatedPair = \<lparr>nodes = [mkNode ''A'' 0 0, mkNode ''B'' 0 0], edges = []\<rparr>"

definition staleStatusGraph :: Graph where
  "staleStatusGraph =
     \<lparr>nodes = [mkNode ''A'' 0 0,
               (mkNode ''B'' 0 0)\<lparr>node_status := Some NStart\<rparr>,
               (mkNode ''C'' 0 0)\<lparr>node_status := Some NVisited\<rparr>],
      edges = []\<rparr>"

definition danglingEdgeGraph :: Graph where
  "danglingEdgeGraph = \<lparr>nodes = [mkNode ''A'' 0 0], edges = [mkEdge ''A-X'' ''A'' ''X'' 1]\<rparr>"

definition emptyIdGraph :: Graph where
  "emptyIdGraph =
     \<lparr>nodes = [mkNode ''A'' 0 0, mkNode [] 0 0], edges = [mkEdge ''A-'' ''A'' [] 1]\<rparr>"

definition zeroWeightGraph :: Graph where
  "zeroWeightGraph =
     \<lparr>nodes = [mkNode ''A'' 0 0, mkNode ''B'' 0 0, mkNode ''C'' 0 0],
      edges = [mkEdge ''A-B'' ''A'' ''B'' 0, mkEdge ''A-C'' ''A'' ''C'' 1,
               mkEdge ''C-B'' ''C'' ''B'' 1]\<rparr>"

definition summary :: "DijkstraResult \<Rightarrow> bool \<times> string list option \<times> number option" where
  "summary r = (success r, result_shortestPath r, shortestDistance r)"

section \<open>Evaluation on concrete graphs\<close>

lemmas eval_defs =
  runDijkstraAlgorithm_def finish_def constructPath_def constructPathLoop.simps
  runLoop.simps dijkstraNextStep_def initializeDijkstra_def generateDemoGraph_def
  isolatedPair_def mkNode_def mkEdge_def createAdjacencyList_def addEdge_def relax_def
  pickNext_def stepStatus_def visualizeShortestPath_def isPathEdge_def map_get_def
  map_has_def set_has_def set_add_def set_delete_def Let_def

lemmas fixture_defs = staleStatusGraph_def danglingEdgeGraph_def emptyIdGraph_def
  zeroWeightGraph_def stepsFrom_def nodeIds_def joins_def

lemma summary_eq:
  assumes "map_option summary x = Some (a, b, c)"
  shows "map_option success x = Some a \<and> map_option result_shortestPath x = Some b \<and>
         map_option shortestDistance x = Some c"
  using assms by (cases x) (auto simp: summary_def)

lemma demo_A_E:
  "map_option summary (runDijkstraAlgorithm generateDemoGraph ''A'' ''E'') =
   Some (True, Some [''A'', ''D'', ''C'', ''E''], Some (Fin 10))"
  by (simp add: summary_def eval_defs)

lemma demo_A_A:
  "map_option summary (runDijkstraAlgorithm generateDemoGraph ''A'' ''A'') =
   Some (True, Some [''A''], None)"
  by (simp add: summary_def eval_defs)

lemma demo_B_B:
  "map_option summary (runDijkstraAlgorithm generateDemoGraph ''B'' ''B'') =
   Some (False, None, None)"
  by (simp add: summary_def eval_defs)

lemma pair_A_B:
  "map_option summary (runDijkstraAlgorithm isolatedPair ''A'' ''B'') =
   Some (False, None, Some Infinity)"
  by (simp add: summary_def eval_defs)

lemma pair_B_A:
  "map_option summary (runDijkstraAlgorithm isolatedPair ''B'' ''A'') =
   Some (True, Some [''A''], Some Infinity)"
  by (simp add: summary_def eval_defs)

section \<open>The example run\<close>

text \<open>
  Claim C1, as the code has it: on the demo graph the full run from A to E succeeds with
  the path A, D, C, E and the distance 10 (3 + 1 + 6).
\<close>

theorem demo_run_distance_10:
  "map_option success (runDijkstraAlgorithm generateDemoGraph ''A'' ''E'') = Some True \<and>
   map_option result_shortestPath (runDijkstraAlgorithm generateDemoGraph ''A'' ''E'') =
     Some (Some [''A'', ''D'', ''C'', ''E'']) \<and>
   map_option shortestDistance (runDijkstraAlgorithm generateDemoGraph ''A'' ''E'') =
     Some (Some (Fin 10))"
  by (rule summary_eq [OF demo_A_E])

text \<open>Claim C1 as stated asks for the distance 8; the run does not return it.\<close>

theorem demo_run_distance_not_8:
  "map_option shortestDistance (runDijkstraAlgorithm generateDemoGraph ''A'' ''E'') \<noteq>
   Some (Some (Fin 8))"
proof -
  have "map_option shortestDistance (runDijkstraAlgorithm generateDemoGraph ''A'' ''E'') =
        Some (Some (Fin 10))"
    using summary_eq [OF demo_A_E] by (elim conjE)
  then show ?thesis by (simp only: option.inject number.inject)
qed

section \<open>Start equal to end\<close>

text \<open>
  Claim C2 at concrete inputs: from A to A on the demo graph the run returns the path [A]
  but no distance (\<open>0 || null\<close>), and from B to B it returns no path at all, since B is
  not the first key of the predecessor map.
\<close>

theorem same_node_run:
  "map_option result_shortestPath (runDijkstraAlgorithm generateDemoGraph ''A'' ''A'') =
     Some (Some [''A'']) \<and>
   map_option shortestDistance (runDijkstraAlgorithm generateDemoGraph ''A'' ''A'') =
     Some None \<and>
   map_option success (runDijkstraAlgorithm generateDemoGraph ''B'' ''B'') = Some False \<and>
   map_option result_shortestPath (runDijkstraAlgorithm generateDemoGraph ''B'' ''B'') =
     Some None \<and>
   map_option shortestDistance (runDijkstraAlgorithm generateDemoGraph ''B'' ''B'') =
     Some None"
  using summary_eq [OF demo_A_A] summary_eq [OF demo_B_B] by (elim conjE) (intro conjI)

section \<open>The result when the end node is unreachable\<close>

text \<open>
  Claim C3 at concrete inputs: with two isolated nodes A and B, the run from A to B reports
  no path but the distance \<open>Infinity\<close> (truthy, so \<open>|| null\<close> keeps it), and the run
  from B to A, where the unreachable end is the first key of the predecessor map, reports
  success with the path [A].
\<close>

theorem unreachable_end_run:
  "map_option success (runDijkstraAlgorithm isolatedPair ''A'' ''B'') = Some False \<and>
   map_option result_shortestPath (runDijkstraAlgorithm isolatedPair ''A'' ''B'') =
     Some None \<and>
   map_option shortestDistance (runDijkstraAlgorithm isolatedPair ''A'' ''B'') =
     Some (Some Infinity) \<and>
   map_option success (runDijkstraAlgorithm isolatedPair ''B'' ''A'') = Some True \<and>
   map_option result_shortestPath (runDijkstraAlgorithm isolatedPair ''B'' ''A'') =
     Some (Some [''A'']) \<and>
   map_option shortestDistance (runDijkstraAlgorithm isolatedPair ''B'' ''A'') =
     Some (Some Infinity)"
  using summary_eq [OF pair_A_B] summary_eq [OF pair_B_A] by (elim conjE) (intro conjI)

section \<open>Maps, sets and the inactive step\<close>

lemma map_get_map_set:
  "map_get (map_set k v m) k' = (if k' = k then Some v else map_get m k')"
  by (induction m) (auto simp: map_get_def)

lemma map_has_get: "map_has m k = (map_get m k \<noteq> None)"
  by (simp add: map_has_def map_get_def)

lemma map_has_map_set: "map_has (map_set k v m) k' = (k' = k \<or> map_has m k')"
  by (simp add: map_has_get map_get_map_set)

lemma map_get_fold_set:
  "map_get (fold (\<lambda>n. map_set (f n) (c (f n))) ns m) k =
   (if k \<in> f ` set ns then Some (c k) else map_get m k)"
  by (induction ns arbitrary: m) (auto simp: map_get_map_set)

lemma set_fold_set_add: "set (fold (\<lambda>n. set_add (f n)) ns s) = f ` set ns \<union> set s"
  by (induction ns arbitrary: s) (auto simp: set_add_def)

lemma distinct_fold_set_add:
  "distinct s \<Longrightarrow> distinct (fold (\<lambda>n. set_add (f n)) ns s)"
  by (induction ns arbitrary: s) (auto simp: set_add_def)

lemma set_set_add: "set (set_add a s) = insert a (set s)"
  by (auto simp: set_add_def)

lemma set_set_delete: "set (set_delete a s) = set s - {a}"
  by (auto simp: set_delete_def)

lemma map_get_Nil: "map_get [] k = None"
  by (simp add: map_get_def)

lemma length_fold_set_add:
  "length (fold (\<lambda>n. set_add (f n)) ns s) \<le> length ns + length s"
proof (induction ns arbitrary: s)
  case Nil
  then show ?case by simp
next
  case (Cons a ns)
  have "length (set_add (f a) s) \<le> Suc (length s)" by (simp add: set_add_def)
  with Cons.IH [of "set_add (f a) s"] show ?case by simp
qed

section \<open>Initialization\<close>

lemma init_distances:
  "map_get (distances (initializeDijkstra g st)) v =
   (if v \<in> nodeIds g then Some (if v = st then Fin 0 else Infinity) else None)"
  using map_get_fold_set [of node_id "\<lambda>i. if i = st then Fin 0 else Infinity" "nodes g" "[]" v]
  by (simp add: initializeDijkstra_def nodeIds_def map_get_Nil)

lemma init_previous:
  "map_get (previous (initializeDijkstra g st)) v =
   (if v \<in> nodeIds g then Some None else None)"
  using map_get_fold_set [of node_id "\<lambda>i. None :: string option" "nodes g" "[]" v]
  by (simp add: initializeDijkstra_def nodeIds_def map_get_Nil)

text \<open>
  Claim C4, as the code has it: for a start id that names a node, \<open>initializeDijkstra\<close>
  returns a step with distance 0 for the start id and \<open>Infinity\<close> for every other node
  id, predecessor \<open>null\<close> for every node id, all node ids unvisited, none visited, the
  start id as current node and \<open>isDone\<close> false. In its graph copy the edges are those of
  the input, and every node is the input node with a new status: \<open>start\<close> for the start
  node, \<open>end\<close> for another node that had \<open>end\<close>, and \<open>default\<close> for every
  remaining node, whatever its status was.
\<close>

theorem init_step:
  assumes "st \<in> nodeIds g"
  shows "map_get (distances (initializeDijkstra g st)) st = Some (Fin 0) \<and>
    (\<forall>v\<in>nodeIds g. v \<noteq> st \<longrightarrow>
        map_get (distances (initializeDijkstra g st)) v = Some Infinity) \<and>
    (\<forall>v\<in>nodeIds g. map_get (previous (initializeDijkstra g st)) v = Some None) \<and>
    set (unvisitedNodes (initializeDijkstra g st)) = nodeIds g \<and>
    visitedNodes (initializeDijkstra g st) = [] \<and>
    currentNode (initializeDijkstra g st) = Some st \<and>
    \<not> isDone (initializeDijkstra g st) \<and>
    edges (graph (initializeDijkstra g st)) = edges g \<and>
    length (nodes (graph (initializeDijkstra g st))) = length (nodes g) \<and>
    (\<forall>i<length (nodes g).
        nodes (graph (initializeDijkstra g st)) ! i =
        (nodes g ! i)\<lparr>node_status :=
           Some (if node_id (nodes g ! i) = st then NStart
                 else if node_status (nodes g ! i) = Some NEnd then NEnd else NDefault)\<rparr>)"
proof -
  have "set (unvisitedNodes (initializeDijkstra g st)) = nodeIds g"
    by (simp add: initializeDijkstra_def set_fold_set_add nodeIds_def)
  then show ?thesis
    using assms by (simp add: init_distances init_previous) (simp add: initializeDijkstra_def)
qed

theorem init_step_witness:
  "''A'' \<in> nodeIds generateDemoGraph \<and>
   map_get (distances (initializeDijkstra generateDemoGraph ''A'')) ''A'' = Some (Fin 0) \<and>
   map_get (distances (initializeDijkstra generateDemoGraph ''A'')) ''B'' = Some Infinity \<and>
   map_get (previous (initializeDijkstra generateDemoGraph ''A'')) ''B'' = Some None \<and>
   set (unvisitedNodes (initializeDijkstra generateDemoGraph ''A'')) = nodeIds generateDemoGraph \<and>
   node_status (nodes (graph (initializeDijkstra generateDemoGraph ''A'')) ! Suc 0) =
     Some NDefault"
proof -
  have a: "''A'' \<in> nodeIds generateDemoGraph"
    and b: "''B'' \<in> nodeIds generateDemoGraph"
    and l: "Suc 0 < length (nodes generateDemoGraph)"
    and n: "nodes generateDemoGraph ! Suc 0 = mkNode ''B'' 250 80"
    by (simp_all add: nodeIds_def generateDemoGraph_def mkNode_def)
  from init_step [OF a] have
    "map_get (distances (initializeDijkstra generateDemoGraph ''A'')) ''A'' = Some (Fin 0)"
    "\<forall>v\<in>nodeIds generateDemoGraph. v \<noteq> ''A'' \<longrightarrow>
        map_get (distances (initializeDijkstra generateDemoGraph ''A'')) v = Some Infinity"
    "\<forall>v\<in>nodeIds generateDemoGraph.
        map_get (previous (initializeDijkstra generateDemoGraph ''A'')) v = Some None"
    "set (unvisitedNodes (initializeDijkstra generateDemoGraph ''A'')) = nodeIds generateDemoGraph"
    "\<forall>i<length (nodes generateDemoGraph).
        nodes (graph (initializeDijkstra generateDemoGraph ''A'')) ! i =
        (nodes generateDemoGraph ! i)\<lparr>node_status :=
           Some (if node_id (nodes generateDemoGraph ! i) = ''A'' then NStart
                 else if node_status (nodes generateDemoGraph ! i) = Some NEnd then NEnd
                 else NDefault)\<rparr>"
    by blast+
  with a b l show ?thesis by (simp add: n mkNode_def)
qed

text \<open>
  Claim C4 as stated says that the statuses of the other nodes are left unchanged. A node
  that still carries \<open>start\<close> from an earlier run, or \<open>visited\<close>, comes out as
  \<open>default\<close>.
\<close>

theorem init_resets_status:
  "node_status (nodes staleStatusGraph ! Suc 0) = Some NStart \<and>
   node_status (nodes (graph (initializeDijkstra staleStatusGraph ''A'')) ! Suc 0) =
     Some NDefault \<and>
   node_status (nodes staleStatusGraph ! Suc (Suc 0)) = Some NVisited \<and>
   node_status (nodes (graph (initializeDijkstra staleStatusGraph ''A'')) ! Suc (Suc 0)) =
     Some NDefault"
  by (simp add: staleStatusGraph_def initializeDijkstra_def mkNode_def)

section \<open>Idempotence at the terminal state\<close>

text \<open>
  Claim C8: on a step whose \<open>isDone\<close> flag is set or whose \<open>currentNode\<close> is none,
  \<open>dijkstraNextStep\<close> returns a step equal to its input in every field.
\<close>

theorem advance_terminal_idem:
  "isDone s \<or> currentNode s = None \<Longrightarrow> dijkstraNextStep s = s"
  by (auto simp: dijkstraNextStep_def split: option.splits)

theorem advance_terminal_idem_witness:
  "isDone (dijkstraNextStep (initializeDijkstra isolatedPair ''A'')) \<and>
   dijkstraNextStep (dijkstraNextStep (initializeDijkstra isolatedPair ''A'')) =
   dijkstraNextStep (initializeDijkstra isolatedPair ''A'')"
proof -
  have d: "isDone (dijkstraNextStep (initializeDijkstra isolatedPair ''A''))"
    by (simp add: eval_defs)
  from d advance_terminal_idem [of "dijkstraNextStep (initializeDijkstra isolatedPair ''A'')"]
  show ?thesis by simp
qed

section \<open>The active step\<close>

lemma advance_inactive:
  "isDone s \<or> currentNode s = None \<or> currentNode s = Some [] \<Longrightarrow> dijkstraNextStep s = s"
  by (auto simp: dijkstraNextStep_def split: option.splits)

lemma advance_active:
  assumes "\<not> isDone s" "currentNode s = Some c" "c \<noteq> []"
  shows "visitedNodes (dijkstraNextStep s) = set_add c (visitedNodes s)"
    and "unvisitedNodes (dijkstraNextStep s) = set_delete c (unvisitedNodes s)"
    and "distances (dijkstraNextStep s) = fst (relaxed s c)"
    and "previous (dijkstraNextStep s) = snd (relaxed s c)"
    and "edges (graph (dijkstraNextStep s)) = edges (graph s)"
    and "map node_id (nodes (graph (dijkstraNextStep s))) = map node_id (nodes (graph s))"
    and "shortestPath (dijkstraNextStep s) = shortestPath s"
  using assms
  by (simp_all add: dijkstraNextStep_def Let_def relaxed_def neighborsOf_def stepStatus_def)

lemma relax_visited_get:
  "set_has vis v \<Longrightarrow>
   map_get (fst (fold (relax vis c cd) nbrs dp)) v = map_get (fst dp) v \<and>
   map_get (snd (fold (relax vis c cd) nbrs dp)) v = map_get (snd dp) v"
  by (induction nbrs arbitrary: dp) (auto simp: relax_def map_get_map_set)

lemma advance_keeps_visited:
  assumes "v \<in> set (visitedNodes s)"
  shows "v \<in> set (visitedNodes (dijkstraNextStep s)) \<and>
         map_get (distances (dijkstraNextStep s)) v = map_get (distances s) v \<and>
         map_get (previous (dijkstraNextStep s)) v = map_get (previous s) v"
proof (cases "isDone s \<or> currentNode s = None \<or> currentNode s = Some []")
  case True
  then show ?thesis using assms by (simp add: advance_inactive)
next
  case False
  then obtain c where c: "\<not> isDone s" "currentNode s = Some c" "c \<noteq> []" by auto
  have "set_has (set_add c (visitedNodes s)) v"
    using assms by (simp add: set_has_def set_set_add)
  then show ?thesis
    using assms relax_visited_get
    by (simp add: advance_active [OF c] relaxed_def set_set_add)
qed

lemma stepsFrom_Suc: "stepsFrom g st (Suc k) = dijkstraNextStep (stepsFrom g st k)"
  by (simp add: stepsFrom_def)

lemma stepsFrom_0: "stepsFrom g st 0 = initializeDijkstra g st"
  by (simp add: stepsFrom_def)

lemma edges_advance: "edges (graph (dijkstraNextStep s)) = edges (graph s)"
  by (cases "isDone s \<or> currentNode s = None \<or> currentNode s = Some []")
    (auto simp: advance_inactive advance_active)

lemma edges_stepsFrom: "edges (graph (stepsFrom g st k)) = edges g"
  by (induction k) (simp_all add: stepsFrom_0 stepsFrom_Suc edges_advance initializeDijkstra_def)

section \<open>Visited nodes are final\<close>

text \<open>
  Claim C6: in the sequence of steps produced by \<open>init\<close> and repeated \<open>advance\<close>,
  a node id that is in \<open>visitedNodes\<close> at step \<open>i\<close> is in \<open>visitedNodes\<close> at
  every later step \<open>j\<close>, with the same distance. This holds for every graph and start id;
  positive weights are not needed.
\<close>

theorem visited_stays_visited:
  "i \<le> j \<Longrightarrow> set_has (visitedNodes (stepsFrom g st i)) v \<Longrightarrow>
   set_has (visitedNodes (stepsFrom g st j)) v \<and>
   map_get (distances (stepsFrom g st j)) v = map_get (distances (stepsFrom g st i)) v"
proof (induction j)
  case 0
  then show ?case by simp
next
  case (Suc j)
  show ?case
  proof (cases "i = Suc j")
    case True
    then show ?thesis using Suc.prems by simp
  next
    case False
    then have "i \<le> j" using Suc.prems by simp
    from Suc.IH [OF this Suc.prems(2)] advance_keeps_visited [of v "stepsFrom g st j"]
    show ?thesis by (simp add: stepsFrom_Suc set_has_def)
  qed
qed

theorem visited_stays_visited_witness:
  "set_has (visitedNodes (stepsFrom generateDemoGraph ''A'' (Suc 0))) ''A'' \<and>
   set_has (visitedNodes (stepsFrom generateDemoGraph ''A'' (Suc (Suc 0)))) ''A'' \<and>
   map_get (distances (stepsFrom generateDemoGraph ''A'' (Suc (Suc 0)))) ''A'' =
   map_get (distances (stepsFrom generateDemoGraph ''A'' (Suc 0))) ''A''"
proof -
  have h: "set_has (visitedNodes (stepsFrom generateDemoGraph ''A'' (Suc 0))) ''A''"
    by (simp add: stepsFrom_def eval_defs)
  have "Suc 0 \<le> Suc (Suc 0)" by simp
  from visited_stays_visited [OF this h] h show ?thesis by simp
qed

section \<open>The partition of the node ids and the keys of the maps\<close>

subsection \<open>next-node selection\<close>

lemma pickNext_fold_mem:
  "snd (fold (pickNext ds) us acc) = Some n \<Longrightarrow> n \<in> set us \<or> snd acc = Some n"
proof (induction us arbitrary: acc)
  case Nil
  then show ?case by simp
next
  case (Cons u us)
  from Cons.prems have "snd (fold (pickNext ds) us (pickNext ds u acc)) = Some n" by simp
  from Cons.IH [OF this] show ?case
    by (auto simp: pickNext_def split: if_splits)
qed

lemma advance_active_current:
  assumes "\<not> isDone s" "currentNode s = Some c" "c \<noteq> []"
  shows "isDone (dijkstraNextStep s) = (snd (selected s c) = None \<or> fst (selected s c) = Infinity)"
    and "currentNode (dijkstraNextStep s) =
         (if snd (selected s c) = None \<or> fst (selected s c) = Infinity then None
          else snd (selected s c))"
  using assms
  by (simp_all add: dijkstraNextStep_def Let_def relaxed_def neighborsOf_def selected_def)

lemma selected_mem:
  "snd (selected s c) = Some n \<Longrightarrow> n \<in> set (set_delete c (unvisitedNodes s))"
  using pickNext_fold_mem [of "fst (relaxed s c)" "set_delete c (unvisitedNodes s)" "(Infinity, None)" n]
  by (simp add: selected_def)

subsection \<open>The partition of the node ids\<close>

lemma partitionInv_init:
  "st \<in> nodeIds g \<Longrightarrow> partitionInv g (initializeDijkstra g st)"
  by (simp add: partitionInv_def initializeDijkstra_def set_fold_set_add
      distinct_fold_set_add nodeIds_def)

lemma partitionInv_advance:
  assumes "partitionInv g s"
  shows "partitionInv g (dijkstraNextStep s)"
proof (cases "isDone s \<or> currentNode s = None \<or> currentNode s = Some []")
  case True
  then show ?thesis using assms by (simp add: advance_inactive)
next
  case False
  then obtain c where c: "\<not> isDone s" "currentNode s = Some c" "c \<noteq> []" by auto
  have cu: "c \<in> set (unvisitedNodes s)" using assms c by (simp add: partitionInv_def)
  have "distinct (set_delete c (unvisitedNodes s))"
    using assms by (simp add: partitionInv_def set_delete_def distinct_removeAll)
  moreover have "set (set_add c (visitedNodes s)) \<inter> set (set_delete c (unvisitedNodes s)) = {}"
    using assms by (auto simp: partitionInv_def set_set_add set_set_delete)
  moreover have "set (set_add c (visitedNodes s)) \<union> set (set_delete c (unvisitedNodes s)) = nodeIds g"
    using assms cu by (auto simp: partitionInv_def set_set_add set_set_delete)
  moreover have "\<forall>n. currentNode (dijkstraNextStep s) = Some n \<longrightarrow>
                   n \<in> set (set_delete c (unvisitedNodes s))"
    using selected_mem [of s c] by (auto simp: advance_active_current [OF c] split: if_splits)
  moreover have "\<not> isDone (dijkstraNextStep s) \<longrightarrow> currentNode (dijkstraNextStep s) \<noteq> None"
    by (simp add: advance_active_current [OF c])
  ultimately show ?thesis
    by (simp add: partitionInv_def advance_active [OF c])
qed

lemma partitionInv_stepsFrom:
  "st \<in> nodeIds g \<Longrightarrow> partitionInv g (stepsFrom g st k)"
  by (induction k) (simp_all add: stepsFrom_0 stepsFrom_Suc partitionInv_init partitionInv_advance)

subsection \<open>The adjacency list holds edges of the graph only\<close>

lemma adjOK_addEdge:
  assumes "adjOK E adj" "e \<in> E"
  shows "adjOK E (addEdge e adj)"
  unfolding adjOK_def
proof (intro allI impI)
  fix k v w
  assume m: "(v, w) \<in> set (or_empty (map_get (addEdge e adj) k))"
  have old: "(v, w) \<in> set (or_empty (map_get adj k)) \<Longrightarrow>
        \<exists>e\<in>E. weight e = w \<and>
           ((source e = k \<and> target e = v) \<or> (target e = k \<and> source e = v))"
    using assms(1) by (simp add: adjOK_def)
  from m have "(v, w) \<in> set (or_empty (map_get adj k)) \<or>
      (w = weight e \<and> ((source e = k \<and> target e = v) \<or> (target e = k \<and> source e = v)))"
    by (auto simp: addEdge_def Let_def map_get_map_set split: if_splits)
  then show "\<exists>e\<in>E. weight e = w \<and>
           ((source e = k \<and> target e = v) \<or> (target e = k \<and> source e = v))"
    using old assms(2) by blast
qed

lemma adjOK_fold:
  "adjOK E adj \<Longrightarrow> set es \<subseteq> E \<Longrightarrow> adjOK E (fold addEdge es adj)"
  by (induction es arbitrary: adj) (simp_all add: adjOK_addEdge)

lemma adjOK_empty_entry: "adjOK E adj \<Longrightarrow> adjOK E (map_set k [] adj)"
  by (auto simp: adjOK_def map_get_map_set split: if_splits)

lemma adjOK_nodes: "adjOK E adj \<Longrightarrow> adjOK E (fold (\<lambda>node. map_set (node_id node) []) ns adj)"
  by (induction ns arbitrary: adj) (simp_all add: adjOK_empty_entry)

lemma neighborsOf_edge:
  assumes "(v, w) \<in> set (neighborsOf g c)"
  shows "\<exists>e\<in>set (edges g). weight e = w \<and>
           ((source e = c \<and> target e = v) \<or> (target e = c \<and> source e = v))"
proof -
  have "adjOK (set (edges g)) []" by (simp add: adjOK_def map_get_def)
  then have "adjOK (set (edges g)) (createAdjacencyList g)"
    unfolding createAdjacencyList_def by (intro adjOK_fold adjOK_nodes) simp_all
  then show ?thesis
    using assms unfolding adjOK_def neighborsOf_def by blast
qed

subsection \<open>Keys of the two maps\<close>

lemma relax_keeps_keys:
  "map_has (fst dp) v \<Longrightarrow> map_has (fst (fold (relax vis c cd) nbrs dp)) v"
  "map_has (snd dp) v \<Longrightarrow> map_has (snd (fold (relax vis c cd) nbrs dp)) v"
  by (induction nbrs arbitrary: dp) (auto simp: relax_def map_has_map_set)

lemma relax_new_keys:
  "map_has (fst (fold (relax vis c cd) nbrs dp)) v \<Longrightarrow>
     map_has (fst dp) v \<or> v \<in> fst ` set nbrs"
  "map_has (snd (fold (relax vis c cd) nbrs dp)) v \<Longrightarrow>
     map_has (snd dp) v \<or> v \<in> fst ` set nbrs"
proof (induction nbrs arbitrary: dp)
  case Nil
  { case 1 then show ?case by simp }
  { case 2 then show ?case by simp }
next
  case (Cons nb nbrs)
  { case 1
    from Cons.IH(1) [of "relax vis c cd nb dp"] 1
    show ?case by (auto simp: relax_def map_has_map_set split: if_splits) }
  { case 2
    from Cons.IH(2) [of "relax vis c cd nb dp"] 2
    show ?case by (auto simp: relax_def map_has_map_set split: if_splits) }
qed

lemma keysInv_init: "keysInv g (initializeDijkstra g st)"
  by (simp add: keysInv_def map_has_get init_distances init_previous)
    (simp add: initializeDijkstra_def)

lemma keysInv_advance:
  assumes "keysInv g s"
    and ends: "\<forall>e\<in>set (edges g). source e \<in> nodeIds g \<and> target e \<in> nodeIds g"
  shows "keysInv g (dijkstraNextStep s)"
proof (cases "isDone s \<or> currentNode s = None \<or> currentNode s = Some []")
  case True
  then show ?thesis using assms by (simp add: advance_inactive)
next
  case False
  then obtain c where c: "\<not> isDone s" "currentNode s = Some c" "c \<noteq> []" by auto
  have nb: "v \<in> fst ` set (neighborsOf (graph s) c) \<Longrightarrow> v \<in> nodeIds g" for v
  proof -
    assume "v \<in> fst ` set (neighborsOf (graph s) c)"
    then obtain w where "(v, w) \<in> set (neighborsOf (graph s) c)" by auto
    from neighborsOf_edge [OF this] ends assms(1) show ?thesis
      by (auto simp: keysInv_def)
  qed
  have "map_has (fst (relaxed s c)) v = (v \<in> nodeIds g)" for v
    using relax_keeps_keys(1) [of "(distances s, previous s)" v] relax_new_keys(1) nb assms(1)
    unfolding relaxed_def keysInv_def by (metis fst_conv)
  moreover have "map_has (snd (relaxed s c)) v = (v \<in> nodeIds g)" for v
    using relax_keeps_keys(2) [of "(distances s, previous s)" v] relax_new_keys(2) nb assms(1)
    unfolding relaxed_def keysInv_def by (metis snd_conv)
  ultimately show ?thesis
    using assms(1) by (simp add: keysInv_def advance_active [OF c])
qed

lemma keysInv_stepsFrom:
  assumes "\<forall>e\<in>set (edges g). source e \<in> nodeIds g \<and> target e \<in> nodeIds g"
  shows "keysInv g (stepsFrom g st k)"
  by (induction k) (simp_all add: stepsFrom_0 stepsFrom_Suc keysInv_init keysInv_advance [OF _ assms])

text \<open>
  Claim C10, as the code has it: when the start id names a node and both endpoints of every
  edge name nodes, then in every step produced by \<open>init\<close> and \<open>advance\<close> the
  visited and the unvisited ids are disjoint, together they are the node ids of the input
  graph, and the distance map and the predecessor map have exactly the node ids as keys.
\<close>

theorem partition_and_keys:
  assumes "st \<in> nodeIds g"
    and "\<forall>e\<in>set (edges g). source e \<in> nodeIds g \<and> target e \<in> nodeIds g"
  shows "set (visitedNodes (stepsFrom g st k)) \<inter> set (unvisitedNodes (stepsFrom g st k)) = {} \<and>
         set (visitedNodes (stepsFrom g st k)) \<union> set (unvisitedNodes (stepsFrom g st k)) = nodeIds g \<and>
         {v. map_has (distances (stepsFrom g st k)) v} = nodeIds g \<and>
         {v. map_has (previous (stepsFrom g st k)) v} = nodeIds g"
  using partitionInv_stepsFrom [OF assms(1), of k] keysInv_stepsFrom [OF assms(2), of st k]
  by (simp add: partitionInv_def keysInv_def)

theorem partition_and_keys_witness:
  "''A'' \<in> nodeIds generateDemoGraph \<and>
   set (visitedNodes (stepsFrom generateDemoGraph ''A'' (Suc 0))) \<inter>
     set (unvisitedNodes (stepsFrom generateDemoGraph ''A'' (Suc 0))) = {} \<and>
   set (visitedNodes (stepsFrom generateDemoGraph ''A'' (Suc 0))) \<union>
     set (unvisitedNodes (stepsFrom generateDemoGraph ''A'' (Suc 0))) =
     nodeIds generateDemoGraph \<and>
   {v. map_has (distances (stepsFrom generateDemoGraph ''A'' (Suc 0))) v} =
     nodeIds generateDemoGraph \<and>
   {v. map_has (previous (stepsFrom generateDemoGraph ''A'' (Suc 0))) v} =
     nodeIds generateDemoGraph"
proof -
  have a: "''A'' \<in> nodeIds generateDemoGraph"
    by (simp add: nodeIds_def generateDemoGraph_def mkNode_def)
  have e: "\<forall>e\<in>set (edges generateDemoGraph).
             source e \<in> nodeIds generateDemoGraph \<and> target e \<in> nodeIds generateDemoGraph"
    by (simp add: nodeIds_def generateDemoGraph_def mkNode_def mkEdge_def)
  from partition_and_keys [OF a e, of "Suc 0"] a show ?thesis by simp
qed

text \<open>
  Claim C10 as stated puts no condition on the edges. Relaxing an edge whose other endpoint
  is not a node adds that endpoint as a key of both maps.
\<close>

theorem dangling_edge_adds_key:
  "''A'' \<in> nodeIds danglingEdgeGraph \<and> ''X'' \<notin> nodeIds danglingEdgeGraph \<and>
   map_has (distances (stepsFrom danglingEdgeGraph ''A'' (Suc 0))) ''X'' \<and>
   map_has (previous (stepsFrom danglingEdgeGraph ''A'' (Suc 0))) ''X''"
  by (simp add: fixture_defs eval_defs)

section \<open>Termination of the full run\<close>

subsection \<open>Progress of advance\<close>

lemma advance_shrinks:
  assumes "partitionInv g s" "\<not> isDone s" "[] \<notin> nodeIds g"
  shows "\<exists>c. currentNode s = Some c \<and> c \<in> set (unvisitedNodes s) \<and>
           set (unvisitedNodes (dijkstraNextStep s)) = set (unvisitedNodes s) - {c} \<and>
           Suc (length (unvisitedNodes (dijkstraNextStep s))) = length (unvisitedNodes s)"
proof -
  from assms(1,2) obtain c where c: "currentNode s = Some c" "c \<in> set (unvisitedNodes s)"
    by (auto simp: partitionInv_def)
  then have "c \<in> nodeIds g" using assms(1) by (auto simp: partitionInv_def)
  then have ne: "c \<noteq> []" using assms(3) by auto
  have d: "distinct (unvisitedNodes s)" using assms(1) by (simp add: partitionInv_def)
  have "length (removeAll c (unvisitedNodes s)) = length (unvisitedNodes s) - 1"
    using d c(2) by (simp add: distinct_remove1_removeAll [symmetric] length_remove1)
  moreover have "0 < length (unvisitedNodes s)" using c(2) by (cases "unvisitedNodes s") auto
  ultimately show ?thesis
    using c by (simp add: advance_active [OF assms(2) c(1) ne] set_set_delete set_delete_def)
qed

lemma done_within:
  "partitionInv g s \<Longrightarrow> [] \<notin> nodeIds g \<Longrightarrow> length (unvisitedNodes s) = n \<Longrightarrow>
   \<exists>k\<le>n. isDone ((dijkstraNextStep ^^ k) s)"
proof (induction n arbitrary: s)
  case 0
  show ?case
  proof (cases "isDone s")
    case True
    then show ?thesis by simp
  next
    case False
    from advance_shrinks [OF "0.prems"(1) False "0.prems"(2)] "0.prems"(3)
    show ?thesis by auto
  qed
next
  case (Suc n)
  show ?case
  proof (cases "isDone s")
    case True
    then have "isDone ((dijkstraNextStep ^^ 0) s)" by simp
    then show ?thesis by blast
  next
    case False
    from advance_shrinks [OF Suc.prems(1) False Suc.prems(2)] Suc.prems(3)
    have "length (unvisitedNodes (dijkstraNextStep s)) = n" by auto
    from Suc.IH [OF partitionInv_advance [OF Suc.prems(1)] Suc.prems(2) this]
    obtain k where k: "k \<le> n" "isDone ((dijkstraNextStep ^^ k) (dijkstraNextStep s))" by blast
    then have "isDone ((dijkstraNextStep ^^ Suc k) s)" by (simp add: funpow_swap1)
    with k(1) show ?thesis by (metis Suc_le_mono)
  qed
qed

lemma done_within_nodes:
  assumes "st \<in> nodeIds g" "[] \<notin> nodeIds g"
  shows "\<exists>k\<le>length (nodes g). isDone (stepsFrom g st k)"
proof -
  have "length (unvisitedNodes (initializeDijkstra g st)) \<le> length (nodes g)"
    using length_fold_set_add [of node_id "nodes g" "[]"] by (simp add: initializeDijkstra_def)
  moreover obtain k where "k \<le> length (unvisitedNodes (initializeDijkstra g st))"
      "isDone ((dijkstraNextStep ^^ k) (initializeDijkstra g st))"
    using done_within [OF partitionInv_init [OF assms(1)] assms(2) refl] by blast
  ultimately show ?thesis
    unfolding stepsFrom_def by (meson le_trans)
qed

subsection \<open>The loop of the full run returns\<close>

lemma runLoop_returns:
  "isDone ((dijkstraNextStep ^^ k) s) \<Longrightarrow>
   \<exists>j acc'. j \<le> k \<and> runLoop s acc = Some ((dijkstraNextStep ^^ j) s, acc') \<and>
            isDone ((dijkstraNextStep ^^ j) s)"
proof (induction k arbitrary: s acc)
  case 0
  then have "runLoop s acc = Some (s, acc)" by (subst runLoop.simps) simp
  with 0 show ?case by auto
next
  case (Suc k)
  show ?case
  proof (cases "isDone s")
    case True
    then have "runLoop s acc = Some ((dijkstraNextStep ^^ 0) s, acc)"
      by (subst runLoop.simps) simp
    with True show ?thesis by (metis funpow_0 le0)
  next
    case False
    from Suc.prems have "isDone ((dijkstraNextStep ^^ k) (dijkstraNextStep s))"
      by (simp add: funpow_swap1)
    from Suc.IH [OF this, of "acc @ [dijkstraNextStep s]"]
    obtain j acc' where j: "j \<le> k"
      "runLoop (dijkstraNextStep s) (acc @ [dijkstraNextStep s]) =
         Some ((dijkstraNextStep ^^ j) (dijkstraNextStep s), acc')"
      "isDone ((dijkstraNextStep ^^ j) (dijkstraNextStep s))" by blast
    have "runLoop s acc = runLoop (dijkstraNextStep s) (acc @ [dijkstraNextStep s])"
      using False by (subst runLoop.simps) simp
    with j have "Suc j \<le> Suc k \<and> runLoop s acc = Some ((dijkstraNextStep ^^ Suc j) s, acc') \<and>
        isDone ((dijkstraNextStep ^^ Suc j) s)"
      by (simp add: funpow_swap1)
    then show ?thesis by blast
  qed
qed

subsection \<open>Predecessors were visited earlier\<close>

lemma visitRank_le: "visitRank vs v \<le> length vs"
  by (simp add: visitRank_def length_takeWhile_le)

lemma visitRank_mem: "v \<in> set vs \<longleftrightarrow> visitRank vs v < length vs"
  by (induction vs) (auto simp: visitRank_def)

lemma visitRank_set_add_mem: "v \<in> set vs \<Longrightarrow> visitRank (set_add c vs) v = visitRank vs v"
  by (simp add: visitRank_def set_add_def takeWhile_append1)

lemma visitRank_set_add_le: "visitRank vs v \<le> visitRank (set_add c vs) v"
proof (cases "v \<in> set vs")
  case True
  then show ?thesis by (simp add: visitRank_set_add_mem)
next
  case False
  then have "visitRank vs v = length vs" using visitRank_mem visitRank_le by (metis le_neq_implies_less)
  moreover have "takeWhile (\<lambda>x. x \<noteq> v) (vs @ ys) = vs @ takeWhile (\<lambda>x. x \<noteq> v) ys" for ys
    using False by (intro takeWhile_append2) auto
  ultimately show ?thesis by (simp add: visitRank_def set_add_def)
qed

lemma relax_pred:
  "map_get (snd (fold (relax vis c cd) nbrs dp)) v = Some (Some u) \<Longrightarrow>
   map_get (snd dp) v = Some (Some u) \<or> (u = c \<and> \<not> set_has vis v)"
proof (induction nbrs arbitrary: dp)
  case Nil
  then show ?case by simp
next
  case (Cons nb nbrs)
  from Cons.IH [of "relax vis c cd nb dp"] Cons.prems
  show ?case by (auto simp: relax_def map_get_map_set split: if_splits)
qed

lemma predInv_init: "predInv (initializeDijkstra g st)"
  by (simp add: predInv_def init_previous)

lemma predInv_advance:
  assumes "predInv s"
  shows "predInv (dijkstraNextStep s)"
proof (cases "isDone s \<or> currentNode s = None \<or> currentNode s = Some []")
  case True
  then show ?thesis using assms by (simp add: advance_inactive)
next
  case False
  then obtain c where c: "\<not> isDone s" "currentNode s = Some c" "c \<noteq> []" by auto
  let ?vs = "visitedNodes s" and ?vs' = "set_add c (visitedNodes s)"
  have "visitRank ?vs' u < visitRank ?vs' v"
    if h: "map_get (snd (relaxed s c)) v = Some (Some u)" for v u
  proof -
    from relax_pred [OF h [unfolded relaxed_def]]
    consider "map_get (previous s) v = Some (Some u)" | "u = c" "v \<notin> set ?vs'"
      by (auto simp: set_has_def)
    then show ?thesis
    proof cases
      case 1
      then have lt: "visitRank ?vs u < visitRank ?vs v" using assms by (simp add: predInv_def)
      then have "u \<in> set ?vs" using visitRank_mem visitRank_le by (metis less_le_trans)
      then have "visitRank ?vs' u = visitRank ?vs u" by (rule visitRank_set_add_mem)
      with lt visitRank_set_add_le [of ?vs v c] show ?thesis by simp
    next
      case 2
      have "c \<in> set ?vs'" by (simp add: set_set_add)
      then have "visitRank ?vs' c < length ?vs'" by (simp add: visitRank_mem)
      moreover have "visitRank ?vs' v = length ?vs'"
        using 2(2) visitRank_mem visitRank_le by (metis le_neq_implies_less)
      ultimately show ?thesis using 2(1) by simp
    qed
  qed
  then show ?thesis
    by (simp add: predInv_def advance_active [OF c])
qed

lemma predInv_funpow: "predInv s \<Longrightarrow> predInv ((dijkstraNextStep ^^ k) s)"
  by (induction k) (simp_all add: predInv_advance)

subsection \<open>The predecessor walk returns\<close>

lemma constructPathLoop_returns:
  assumes "predInv s"
  shows "\<exists>p. constructPathLoop (previous s) cur path = Some p"
proof (cases cur)
  case None
  then show ?thesis by (subst constructPathLoop.simps) simp
next
  case (Some c)
  have "\<exists>p. constructPathLoop (previous s) (Some c) path = Some p"
  proof (induction "visitRank (visitedNodes s) c" arbitrary: c path rule: less_induct)
    case less
    show ?case
    proof (cases "c = []")
      case True
      then show ?thesis by (subst constructPathLoop.simps) simp
    next
      case False
      show ?thesis
      proof (cases "str_or_null (map_get (previous s) c)")
        case None
        have "constructPathLoop (previous s) None (c # path) = Some (c # path)"
          by (subst constructPathLoop.simps) simp
        then show ?thesis using False None by (subst constructPathLoop.simps) simp
      next
        case (Some u)
        then have "map_get (previous s) c = Some (Some u)"
          by (cases "map_get (previous s) c" rule: str_or_null.cases) (auto split: if_splits)
        then have "visitRank (visitedNodes s) u < visitRank (visitedNodes s) c"
          using assms by (simp add: predInv_def)
        from less [OF this, of "c # path"] show ?thesis
          using False Some by (subst constructPathLoop.simps) simp
      qed
    qed
  qed
  with Some show ?thesis by simp
qed

lemma constructPath_returns:
  "predInv s \<Longrightarrow> \<exists>p. constructPath en (previous s) = Some p"
  using constructPathLoop_returns [of s "Some en" "[]"]
  by (auto simp: constructPath_def)

lemma finish_returns:
  "predInv (fst r) \<Longrightarrow> \<exists>res. finish en r = Some res"
  using constructPath_returns [of "fst r" en]
  by (auto simp: finish_def)

lemma run_returns:
  assumes "st \<in> nodeIds g" "[] \<notin> nodeIds g"
  shows "\<exists>res. runDijkstraAlgorithm g st en = Some res"
proof -
  let ?i = "initializeDijkstra g st"
  obtain k where "isDone (stepsFrom g st k)"
    using done_within_nodes [OF assms] by blast
  then have "isDone ((dijkstraNextStep ^^ k) ?i)" by (simp add: stepsFrom_def)
  from runLoop_returns [OF this, of "[?i]"]
  obtain j acc' where j: "runLoop ?i [?i] = Some ((dijkstraNextStep ^^ j) ?i, acc')" by blast
  have "predInv ((dijkstraNextStep ^^ j) ?i)"
    by (rule predInv_funpow [OF predInv_init])
  then have "\<exists>res. finish en ((dijkstraNextStep ^^ j) ?i, acc') = Some res"
    using finish_returns [of "((dijkstraNextStep ^^ j) ?i, acc')" en] by simp
  with j show ?thesis by (simp add: runDijkstraAlgorithm_def)
qed

subsection \<open>A loop that is stuck never returns\<close>

lemma runLoop_some_not_stuck:
  "runLoop t a = Some r \<Longrightarrow> isDone t \<or> dijkstraNextStep t \<noteq> t"
proof (rule runLoop.raw_induct [where P = "\<lambda>t a r. isDone t \<or> dijkstraNextStep t \<noteq> t"])
  show "runLoop t a = Some r" if "runLoop t a = Some r" using that .
next
  fix rl t a r
  assume ih: "\<And>t a r. rl t a = Some r \<Longrightarrow> isDone t \<or> dijkstraNextStep t \<noteq> t"
    and st: "(if isDone t then Some (t, a)
              else rl (dijkstraNextStep t) (a @ [dijkstraNextStep t])) = Some r"
  show "isDone t \<or> dijkstraNextStep t \<noteq> t"
  proof (cases "isDone t")
    case True
    then show ?thesis by simp
  next
    case False
    with st have "rl (dijkstraNextStep t) (a @ [dijkstraNextStep t]) = Some r" by simp
    from ih [OF this] False show ?thesis by auto
  qed
qed

lemma runLoop_stuck:
  assumes "\<not> isDone s" "dijkstraNextStep s = s"
  shows "runLoop s acc = None"
  using runLoop_some_not_stuck [of s acc] assms by (cases "runLoop s acc") auto

text \<open>
  Claim C7, as the code has it: when the start id names a node and no node id is the empty
  string, the full run returns a result; every \<open>advance\<close> on a step of the run that is
  not done removes exactly its current node from \<open>unvisitedNodes\<close>; and a step with
  \<open>isDone\<close> is reached after at most as many calls as the graph has nodes. The weights
  play no part.
\<close>

theorem run_terminates:
  assumes "st \<in> nodeIds g" and "[] \<notin> nodeIds g"
  shows "(\<exists>res. runDijkstraAlgorithm g st en = Some res) \<and>
    (\<forall>k. \<not> isDone (stepsFrom g st k) \<longrightarrow>
       (\<exists>c. currentNode (stepsFrom g st k) = Some c \<and>
            c \<in> set (unvisitedNodes (stepsFrom g st k)) \<and>
            set (unvisitedNodes (stepsFrom g st (Suc k))) =
              set (unvisitedNodes (stepsFrom g st k)) - {c} \<and>
            Suc (length (unvisitedNodes (stepsFrom g st (Suc k)))) =
              length (unvisitedNodes (stepsFrom g st k)))) \<and>
    (\<exists>k\<le>length (nodes g). isDone (stepsFrom g st k))"
  using run_returns [OF assms] done_within_nodes [OF assms]
    advance_shrinks [OF partitionInv_stepsFrom [OF assms(1)] _ assms(2)]
  by (simp add: stepsFrom_Suc)

theorem run_terminates_witness:
  "''A'' \<in> nodeIds generateDemoGraph \<and> [] \<notin> nodeIds generateDemoGraph \<and>
   \<not> isDone (stepsFrom generateDemoGraph ''A'' 0) \<and>
   (\<exists>res. runDijkstraAlgorithm generateDemoGraph ''A'' ''E'' = Some res) \<and>
   Suc (length (unvisitedNodes (stepsFrom generateDemoGraph ''A'' (Suc 0)))) =
     length (unvisitedNodes (stepsFrom generateDemoGraph ''A'' 0)) \<and>
   (\<exists>k\<le>length (nodes generateDemoGraph). isDone (stepsFrom generateDemoGraph ''A'' k))"
proof -
  have a: "''A'' \<in> nodeIds generateDemoGraph" and b: "[] \<notin> nodeIds generateDemoGraph"
    by (simp_all add: nodeIds_def generateDemoGraph_def mkNode_def)
  have c: "\<not> isDone (stepsFrom generateDemoGraph ''A'' 0)"
    by (simp add: stepsFrom_def initializeDijkstra_def)
  from run_terminates [OF a b, of "''E''"] a b c show ?thesis by blast
qed

text \<open>
  Claim C7 as stated covers every graph. The guard \<open>!currentStep.currentNode\<close> takes
  the empty string for "no current node": once a node with the empty id is selected,
  \<open>advance\<close> returns its input with \<open>isDone\<close> false and the loop of the run never
  ends.
\<close>

theorem empty_id_never_returns:
  "''A'' \<in> nodeIds emptyIdGraph \<and> runDijkstraAlgorithm emptyIdGraph ''A'' ''A'' = None"
proof -
  let ?i = "initializeDijkstra emptyIdGraph ''A''"
  have a: "''A'' \<in> nodeIds emptyIdGraph" by (simp add: fixture_defs mkNode_def)
  have i: "\<not> isDone ?i" by (simp add: initializeDijkstra_def)
  have c: "currentNode (dijkstraNextStep ?i) = Some []"
    and d: "\<not> isDone (dijkstraNextStep ?i)"
    by (simp_all add: fixture_defs eval_defs)
  have "runLoop ?i [?i] = runLoop (dijkstraNextStep ?i) ([?i] @ [dijkstraNextStep ?i])"
    using i by (subst runLoop.simps) simp
  also have "\<dots> = None"
    by (rule runLoop_stuck [OF d advance_inactive]) (simp add: c)
  finally show ?thesis using a by (simp add: runDijkstraAlgorithm_def)
qed

section \<open>The result of the full run\<close>

lemma runLoop_result:
  "runLoop t a = Some r \<Longrightarrow> \<exists>j. fst r = (dijkstraNextStep ^^ j) t \<and> isDone (fst r)"
proof (rule runLoop.raw_induct
    [where P = "\<lambda>t a r. \<exists>j. fst r = (dijkstraNextStep ^^ j) t \<and> isDone (fst r)"])
  show "runLoop t a = Some r" if "runLoop t a = Some r" using that .
next
  fix rl t a r
  assume ih: "\<And>t a r. rl t a = Some r \<Longrightarrow>
                \<exists>j. fst r = (dijkstraNextStep ^^ j) t \<and> isDone (fst r)"
    and st: "(if isDone t then Some (t, a)
              else rl (dijkstraNextStep t) (a @ [dijkstraNextStep t])) = Some r"
  show "\<exists>j. fst r = (dijkstraNextStep ^^ j) t \<and> isDone (fst r)"
  proof (cases "isDone t")
    case True
    with st have "fst r = (dijkstraNextStep ^^ 0) t \<and> isDone (fst r)" by auto
    then show ?thesis by blast
  next
    case False
    with st have "rl (dijkstraNextStep t) (a @ [dijkstraNextStep t]) = Some r" by simp
    from ih [OF this] obtain j where
      "fst r = (dijkstraNextStep ^^ j) (dijkstraNextStep t)" "isDone (fst r)" by blast
    then have "fst r = (dijkstraNextStep ^^ Suc j) t \<and> isDone (fst r)"
      by (simp add: funpow_swap1)
    then show ?thesis by blast
  qed
qed

lemma run_result:
  assumes "runDijkstraAlgorithm g st en = Some res"
  shows "\<exists>j. isDone (stepsFrom g st j) \<and>
           shortestDistance res = num_or_null (map_get (distances (stepsFrom g st j)) en) \<and>
           constructPath en (previous (stepsFrom g st j)) = Some (result_shortestPath res) \<and>
           success res = (result_shortestPath res \<noteq> None)"
proof -
  from assms obtain r where r: "runLoop (initializeDijkstra g st) [initializeDijkstra g st] = Some r"
      "finish en r = Some res"
    by (auto simp: runDijkstraAlgorithm_def split: option.splits)
  from runLoop_result [OF r(1)] obtain j where j: "fst r = stepsFrom g st j" "isDone (fst r)"
    by (auto simp: stepsFrom_def)
  from r(2) j show ?thesis
    by (auto simp: finish_def split: option.splits)
qed

lemma startInv_advance:
  assumes "startInv st s"
  shows "startInv st (dijkstraNextStep s)"
proof (cases "isDone s \<or> currentNode s = None \<or> currentNode s = Some []")
  case True
  then show ?thesis using assms by (simp add: advance_inactive)
next
  case False
  then obtain c where c: "\<not> isDone s" "currentNode s = Some c" "c \<noteq> []" by auto
  have "set_has (set_add c (visitedNodes s)) st"
    using assms c(2) by (auto simp: startInv_def set_has_def set_set_add)
  from relax_visited_get [OF this, of c _ _ "(distances s, previous s)"] this assms
  show ?thesis
    by (simp add: startInv_def advance_active [OF c] relaxed_def set_has_def)
qed

lemma startInv_stepsFrom: "st \<in> nodeIds g \<Longrightarrow> startInv st (stepsFrom g st k)"
proof (induction k)
  case 0
  then show ?case
    by (simp add: stepsFrom_0 startInv_def init_distances init_previous)
      (simp add: initializeDijkstra_def)
next
  case (Suc k)
  then show ?case by (simp add: stepsFrom_Suc startInv_advance)
qed

lemma same_node_distance_none:
  assumes "st \<in> nodeIds g" "runDijkstraAlgorithm g st st = Some res"
  shows "shortestDistance res = None"
proof -
  from run_result [OF assms(2)] obtain j where
    "shortestDistance res = num_or_null (map_get (distances (stepsFrom g st j)) st)" by blast
  with startInv_stepsFrom [OF assms(1), of j] show ?thesis by (simp add: startInv_def)
qed

section \<open>Relaxation\<close>

subsection \<open>What the adjacency list holds for a pair of nodes\<close>

lemma addEdge_filter:
  assumes "v \<noteq> u"
  shows "filter (\<lambda>nb. fst nb = v) (or_empty (map_get (addEdge e adj) u)) =
         filter (\<lambda>nb. fst nb = v) (or_empty (map_get adj u)) @
         (if joins u v e then [(v, weight e)] else [])"
  using assms by (auto simp: addEdge_def Let_def map_get_map_set joins_def)

lemma fold_addEdge_filter:
  assumes "v \<noteq> u"
  shows "filter (\<lambda>nb. fst nb = v) (or_empty (map_get (fold addEdge es adj) u)) =
         filter (\<lambda>nb. fst nb = v) (or_empty (map_get adj u)) @
         map (\<lambda>e. (v, weight e)) (filter (joins u v) es)"
  by (induction es arbitrary: adj) (simp_all add: addEdge_filter [OF assms])

lemma empty_entries:
  "or_empty (map_get adj u) = [] \<Longrightarrow>
   or_empty (map_get (fold (\<lambda>node. map_set (node_id node) []) ns adj) u) = []"
  by (induction ns arbitrary: adj) (simp_all add: map_get_map_set)

lemma neighborsOf_filter:
  "v \<noteq> u \<Longrightarrow>
   filter (\<lambda>nb. fst nb = v) (neighborsOf g u) =
   map (\<lambda>e. (v, weight e)) (filter (joins u v) (edges g))"
  by (simp add: neighborsOf_def createAdjacencyList_def fold_addEdge_filter empty_entries
      map_get_Nil)

subsection \<open>Relaxing one neighbour\<close>

lemma relax_other:
  "fst nb \<noteq> v \<Longrightarrow>
   map_get (fst (relax vis c cd nb dp)) v = map_get (fst dp) v \<and>
   map_get (snd (relax vis c cd nb dp)) v = map_get (snd dp) v"
  by (simp add: relax_def map_get_map_set)

lemma relax_others:
  "\<forall>nb\<in>set nbrs. fst nb \<noteq> v \<Longrightarrow>
   map_get (fst (fold (relax vis c cd) nbrs dp)) v = map_get (fst dp) v \<and>
   map_get (snd (fold (relax vis c cd) nbrs dp)) v = map_get (snd dp) v"
  by (induction nbrs arbitrary: dp) (simp_all add: relax_other)

lemma relax_this:
  assumes "\<not> set_has vis v" "map_get (fst dp) v = Some dv" "dv \<noteq> Fin 0"
  shows "if num_less (num_add cd w) dv
         then map_get (fst (relax vis c cd (v, w) dp)) v = Some (num_add cd w) \<and>
              map_get (snd (relax vis c cd (v, w) dp)) v = Some (Some c)
         else map_get (fst (relax vis c cd (v, w) dp)) v = Some dv \<and>
              map_get (snd (relax vis c cd (v, w) dp)) v = map_get (snd dp) v"
proof -
  have "num_or (Some dv) Infinity = dv" using assms(3) by (cases dv) auto
  then show ?thesis using assms(1,2) by (simp add: relax_def map_get_map_set)
qed

lemma relax_single:
  assumes one: "filter (\<lambda>nb. fst nb = v) nbrs = [(v, w)]"
    and "\<not> set_has vis v" "map_get d v = Some dv" "dv \<noteq> Fin 0"
  shows "if num_less (num_add cd w) dv
         then map_get (fst (fold (relax vis c cd) nbrs (d, p))) v = Some (num_add cd w) \<and>
              map_get (snd (fold (relax vis c cd) nbrs (d, p))) v = Some (Some c)
         else map_get (fst (fold (relax vis c cd) nbrs (d, p))) v = Some dv \<and>
              map_get (snd (fold (relax vis c cd) nbrs (d, p))) v = map_get p v"
proof -
  from one obtain xs ys where sp: "nbrs = xs @ (v, w) # ys"
      "\<forall>nb\<in>set xs. fst nb \<noteq> v" "filter (\<lambda>nb. fst nb = v) ys = []"
    by (auto simp: filter_eq_Cons_iff)
  then have ys: "\<forall>nb\<in>set ys. fst nb \<noteq> v" by (simp add: filter_empty_conv)
  let ?dp1 = "fold (relax vis c cd) xs (d, p)"
  have a: "map_get (fst ?dp1) v = Some dv" "map_get (snd ?dp1) v = map_get p v"
    using relax_others [OF sp(2), of vis c cd "(d, p)"] assms(3) by simp_all
  have b: "fold (relax vis c cd) nbrs (d, p) =
           fold (relax vis c cd) ys (relax vis c cd (v, w) ?dp1)"
    by (simp add: sp(1))
  show ?thesis
    using relax_this [OF assms(2) a(1) assms(4), of cd w c]
      relax_others [OF ys, of vis c cd "relax vis c cd (v, w) ?dp1"]
    by (simp add: b a(2) split: if_splits)
qed

text \<open>
  Claim C5, as the code has it: let \<open>advance\<close> run on a step that is not done, with
  current node \<open>u\<close> (a non-empty id), and let \<open>v\<close> be another node, not visited,
  joined to \<open>u\<close> by exactly one edge \<open>e\<close>, with a recorded distance that is not 0.
  If \<open>distance[u] + weight e\<close> is strictly less than \<open>distance[v]\<close>, then afterwards
  the distance of \<open>v\<close> is that sum and its predecessor is \<open>u\<close>; otherwise its
  distance and its predecessor are unchanged.
\<close>

theorem relaxation_step:
  assumes "\<not> isDone s" "currentNode s = Some u" "u \<noteq> []"
    and "\<not> set_has (visitedNodes s) v" "v \<noteq> u"
    and "filter (joins u v) (edges (graph s)) = [e]"
    and "map_get (distances s) u = Some du"
    and "map_get (distances s) v = Some dv" "dv \<noteq> Fin 0"
  shows "if num_less (num_add du (weight e)) dv
         then map_get (distances (dijkstraNextStep s)) v = Some (num_add du (weight e)) \<and>
              map_get (previous (dijkstraNextStep s)) v = Some (Some u)
         else map_get (distances (dijkstraNextStep s)) v = Some dv \<and>
              map_get (previous (dijkstraNextStep s)) v = map_get (previous s) v"
proof -
  have one: "filter (\<lambda>nb. fst nb = v) (neighborsOf (graph s) u) = [(v, weight e)]"
    using assms(5,6) by (simp add: neighborsOf_filter)
  have vis: "\<not> set_has (set_add u (visitedNodes s)) v"
    using assms(4,5) by (simp add: set_has_def set_set_add)
  have "num_or (map_get (distances s) u) (Fin 0) = du"
    using assms(7) by (cases du) auto
  then have r: "relaxed s u =
      fold (relax (set_add u (visitedNodes s)) u du) (neighborsOf (graph s) u)
        (distances s, previous s)"
    by (simp add: relaxed_def)
  show ?thesis
    unfolding advance_active(3,4) [OF assms(1-3)] r
    by (rule relax_single [OF one vis assms(8,9)])
qed

theorem relaxation_step_witness:
  "currentNode (stepsFrom generateDemoGraph ''A'' (Suc 0)) = Some ''D'' \<and>
   map_get (distances (stepsFrom generateDemoGraph ''A'' (Suc 0))) ''D'' = Some (Fin 3) \<and>
   map_get (distances (stepsFrom generateDemoGraph ''A'' (Suc 0))) ''C'' = Some Infinity \<and>
   map_get (distances (stepsFrom generateDemoGraph ''A'' (Suc (Suc 0)))) ''C'' = Some (Fin 4) \<and>
   map_get (previous (stepsFrom generateDemoGraph ''A'' (Suc (Suc 0)))) ''C'' =
     Some (Some ''D'') \<and>
   map_get (distances (stepsFrom generateDemoGraph ''A'' (Suc 0))) ''B'' = Some (Fin 4) \<and>
   map_get (distances (stepsFrom generateDemoGraph ''A'' (Suc (Suc 0)))) ''B'' = Some (Fin 4)"
proof -
  let ?s = "stepsFrom generateDemoGraph ''A'' (Suc 0)"
  have h1: "\<not> isDone ?s" and h2: "currentNode ?s = Some ''D''"
    and h3: "\<not> set_has (visitedNodes ?s) ''C''"
    and h4: "map_get (distances ?s) ''D'' = Some (Fin 3)"
    and h5: "map_get (distances ?s) ''C'' = Some Infinity"
    and h6: "\<not> set_has (visitedNodes ?s) ''B''"
    and h7: "map_get (distances ?s) ''B'' = Some (Fin 4)"
    by (simp_all add: stepsFrom_def eval_defs)
  have e: "edges (graph ?s) = edges generateDemoGraph" by (rule edges_stepsFrom)
  have e1: "filter (joins ''D'' ''C'') (edges (graph ?s)) = [mkEdge ''C-D'' ''C'' ''D'' 1]"
    and e2: "filter (joins ''D'' ''B'') (edges (graph ?s)) = [mkEdge ''B-D'' ''B'' ''D'' 2]"
    unfolding e by (simp_all add: generateDemoGraph_def mkEdge_def joins_def)
  have s2: "stepsFrom generateDemoGraph ''A'' (Suc (Suc 0)) = dijkstraNextStep ?s"
    by (rule stepsFrom_Suc)
  from relaxation_step [OF h1 h2 _ h3 _ e1 h4 h5]
  have c: "map_get (distances (dijkstraNextStep ?s)) ''C'' = Some (Fin 4) \<and>
           map_get (previous (dijkstraNextStep ?s)) ''C'' = Some (Some ''D'')"
    by (simp add: mkEdge_def)
  from relaxation_step [OF h1 h2 _ h6 _ e2 h4 h7]
  have b: "map_get (distances (dijkstraNextStep ?s)) ''B'' = Some (Fin 4)"
    by (simp add: mkEdge_def)
  from h2 h4 h5 h7 c b show ?thesis unfolding s2 by simp
qed

text \<open>
  Claim C5 as stated covers every unvisited neighbour. A recorded distance of 0 is read as
  \<open>Infinity\<close> (\<open>0 || Infinity\<close>): with an edge of weight 0 from the start, node B
  gets distance 0, and the next step replaces it by 2 through C although 2 is not less
  than 0.
\<close>

theorem zero_distance_overwritten:
  "currentNode (stepsFrom zeroWeightGraph ''A'' (Suc 0)) = Some ''C'' \<and>
   \<not> isDone (stepsFrom zeroWeightGraph ''A'' (Suc 0)) \<and>
   \<not> set_has (visitedNodes (stepsFrom zeroWeightGraph ''A'' (Suc 0))) ''B'' \<and>
   filter (joins ''C'' ''B'') (edges (graph (stepsFrom zeroWeightGraph ''A'' (Suc 0)))) =
     [mkEdge ''C-B'' ''C'' ''B'' 1] \<and>
   map_get (distances (stepsFrom zeroWeightGraph ''A'' (Suc 0))) ''C'' = Some (Fin 1) \<and>
   map_get (distances (stepsFrom zeroWeightGraph ''A'' (Suc 0))) ''B'' = Some (Fin 0) \<and>
   \<not> num_less (num_add (Fin 1) (Fin 1)) (Fin 0) \<and>
   map_get (distances (stepsFrom zeroWeightGraph ''A'' (Suc (Suc 0)))) ''B'' = Some (Fin 2) \<and>
   map_get (previous (stepsFrom zeroWeightGraph ''A'' (Suc (Suc 0)))) ''B'' = Some (Some ''C'')"
  by (simp add: fixture_defs eval_defs)

subsection \<open>With positive weights only the start node has distance 0\<close>

text \<open>
  On a graph with positive weights the case does not arise in a run: a node with
  distance 0 is visited or is the current node.
\<close>

lemma relax_value:
  "map_get (fst (fold (relax vis c cd) nbrs dp)) v = Some x \<Longrightarrow>
   map_get (fst dp) v = Some x \<or> (\<exists>w. (v, w) \<in> set nbrs \<and> x = num_add cd w)"
proof (induction nbrs arbitrary: dp)
  case Nil
  then show ?case by simp
next
  case (Cons nb nbrs)
  from Cons.IH [of "relax vis c cd nb dp"] Cons.prems
  show ?case by (cases nb) (auto simp: relax_def map_get_map_set split: if_splits)
qed

lemma num_add_positive:
  "\<not> num_less cd (Fin 0) \<Longrightarrow> num_less (Fin 0) w \<Longrightarrow>
   num_less (Fin 0) (num_add cd w)"
  by (cases cd; cases w) auto

lemma zeroInv_init: "zeroInv (initializeDijkstra g st)"
  by (auto simp: zeroInv_def init_distances split: if_splits) (simp add: initializeDijkstra_def)

lemma zeroInv_advance:
  assumes "zeroInv s" "positiveWeights (graph s)"
  shows "zeroInv (dijkstraNextStep s)"
proof (cases "isDone s \<or> currentNode s = None \<or> currentNode s = Some []")
  case True
  then show ?thesis using assms by (simp add: advance_inactive)
next
  case False
  then obtain c where c: "\<not> isDone s" "currentNode s = Some c" "c \<noteq> []" by auto
  let ?cd = "num_or (map_get (distances s) c) (Fin 0)"
  have cd: "\<not> num_less ?cd (Fin 0)"
  proof (cases "map_get (distances s) c")
    case None
    then show ?thesis by simp
  next
    case (Some x)
    then have "\<not> num_less x (Fin 0)" using assms(1) by (simp add: zeroInv_def)
    then show ?thesis using Some by (cases x) auto
  qed
  have new: "num_less (Fin 0) (num_add ?cd w)" if "(v, w) \<in> set (neighborsOf (graph s) c)" for v w
  proof -
    from neighborsOf_edge [OF that] assms(2) have "num_less (Fin 0) w"
      by (auto simp: positiveWeights_def)
    with cd show ?thesis by (rule num_add_positive)
  qed
  have val: "map_get (distances s) v = Some x \<or> num_less (Fin 0) x"
    if "map_get (fst (relaxed s c)) v = Some x" for v x
    using relax_value [OF that [unfolded relaxed_def]] new by auto
  have "\<not> num_less x (Fin 0)" if "map_get (fst (relaxed s c)) v = Some x" for v x
  proof -
    from val [OF that] show ?thesis
    proof
      assume "map_get (distances s) v = Some x"
      then show ?thesis using assms(1) unfolding zeroInv_def by blast
    next
      assume "num_less (Fin 0) x"
      then show ?thesis by (cases x) auto
    qed
  qed
  moreover have "v \<in> set (set_add c (visitedNodes s))"
    if "map_get (fst (relaxed s c)) v = Some (Fin 0)" for v
    using val [OF that] assms(1) c(2) by (auto simp: zeroInv_def set_set_add)
  ultimately show ?thesis
    by (simp add: zeroInv_def advance_active [OF c])
qed

lemma zeroInv_stepsFrom: "positiveWeights g \<Longrightarrow> zeroInv (stepsFrom g st k)"
proof (induction k)
  case 0
  then show ?case by (simp add: stepsFrom_0 zeroInv_init)
next
  case (Suc k)
  then have "positiveWeights (graph (stepsFrom g st k))"
    by (simp add: positiveWeights_def edges_stepsFrom)
  with Suc show ?case by (simp add: stepsFrom_Suc zeroInv_advance)
qed

lemma unvisited_distance_nonzero:
  assumes "positiveWeights g"
    and "\<not> set_has (visitedNodes (stepsFrom g st k)) v"
    and "currentNode (stepsFrom g st k) \<noteq> Some v"
  shows "map_get (distances (stepsFrom g st k)) v \<noteq> Some (Fin 0)"
  using zeroInv_stepsFrom [OF assms(1), of st k] assms(2,3)
  by (auto simp: zeroInv_def set_has_def)

section \<open>Highlighting a short path\<close>

text \<open>
  Claim C9: for a path of length less than 2, the empty one included,
  \<open>visualizeShortestPath\<close> returns the input graph, nodes, edges and statuses alike.
\<close>

theorem highlight_short_path:
  "length path < 2 \<Longrightarrow> visualizeShortestPath g path = g"
  by (simp add: visualizeShortestPath_def)

theorem highlight_short_path_witness:
  "length [''A''] < 2 \<and> visualizeShortestPath generateDemoGraph [''A''] = generateDemoGraph"
  using highlight_short_path [of "[''A'']" generateDemoGraph] by simp

end
